theory Spec2Isabelle
  imports Complex_Main
begin

section \<open>The Go standard-library functions that benchmark.go calls\<close>

text \<open>
  Go strings are byte sequences, modelled as \<^typ>\<open>string\<close>. Go's \<open>int\<close> is the
  64-bit signed integer; the only integers the engine client produces come out of
  \<open>strconv.Atoi\<close>, whose range check is part of the model, and no arithmetic is done
  on them before they are converted to \<open>float64\<close>, so they are \<^typ>\<open>int\<close> here.
\<close>

definition nl :: char where
  "nl = CHR 0x0A"

text \<open>\<open>strings.HasPrefix(s, prefix)\<close>: \<open>len(s) >= len(prefix) && s[:len(prefix)] == prefix\<close>.\<close>

definition HasPrefix :: "string \<Rightarrow> string \<Rightarrow> bool" where
  "HasPrefix s p \<longleftrightarrow> length p \<le> length s \<and> take (length p) s = p"

text \<open>\<open>strings.Index(s, sep)\<close>: the index of the first instance of \<open>sep\<close> in \<open>s\<close>, or -1.\<close>

fun Index :: "string \<Rightarrow> string \<Rightarrow> int" where
  "Index [] sep = (if sep = [] then 0 else - 1)"
| "Index (c # cs) sep =
     (if HasPrefix (c # cs) sep then 0
      else (let i = Index cs sep in if i < 0 then - 1 else i + 1))"

text \<open>\<open>strings.Contains(s, substr)\<close> is \<open>Index(s, substr) >= 0\<close>.\<close>

definition Contains :: "string \<Rightarrow> string \<Rightarrow> bool" where
  "Contains s sub \<longleftrightarrow> 0 \<le> Index s sub"

text \<open>
  \<open>strings.SplitN(s, sep, n)\<close> for a non-empty separator and \<open>n > 0\<close> (the one call
  site passes \<open>" "\<close> and 4): at most \<open>n\<close> substrings, the last one the unsplit
  remainder. \<open>n = 0\<close> gives the empty slice.
\<close>

fun SplitN :: "string \<Rightarrow> string \<Rightarrow> nat \<Rightarrow> string list" where
  "SplitN s sep 0 = []"
| "SplitN s sep (Suc 0) = [s]"
| "SplitN s sep (Suc (Suc k)) =
     (let m = Index s sep in
      if m < 0 then [s]
      else take (nat m) s # SplitN (drop (nat m + length sep) s) sep (Suc k))"

text \<open>
  \<open>strconv.Atoi(s)\<close>: an optional sign, then one or more decimal digits and nothing
  else; a value outside the 64-bit range is an error as well. \<open>None\<close> is the
  non-nil error.
\<close>

definition is_digit :: "char \<Rightarrow> bool" where
  "is_digit c \<longleftrightarrow> (48::nat) \<le> of_char c \<and> (of_char c :: nat) \<le> 57"

definition digits_val :: "string \<Rightarrow> int" where
  "digits_val ds = foldl (\<lambda>n ch. n * 10 + (int (of_char ch) - 48)) 0 ds"

definition Atoi :: "string \<Rightarrow> int option" where
  "Atoi s =
     (let neg = (s \<noteq> [] \<and> hd s = CHR ''-'');
          ds = (if s \<noteq> [] \<and> (hd s = CHR ''-'' \<or> hd s = CHR ''+'') then tl s else s)
      in if ds = [] \<or> \<not> list_all is_digit ds then None
         else (let n = (if neg then - digits_val ds else digits_val ds)
               in if - (2 ^ 63) \<le> n \<and> n < 2 ^ 63 then Some n else None))"

text \<open>The decimal text that \<open>fmt.Sprintf("%d", n)\<close> prints.\<close>

fun nat_digits :: "nat \<Rightarrow> string" where
  "nat_digits n =
     (let units = char_of (of_char CHR ''0'' + n mod 10 :: nat)
      in if n div 10 = 0 then [units] else nat_digits (n div 10) @ [units])"

definition Itoa :: "int \<Rightarrow> string" where
  "Itoa n = (if n < 0 then CHR ''-'' # nat_digits (nat (- n)) else nat_digits (nat n))"

text \<open>
  \<open>strings.ToLower\<close> on ASCII text, which is what Chess.com usernames are: the letters
  \<open>A\<close> to \<open>Z\<close> are mapped to \<open>a\<close> to \<open>z\<close>, every other byte is kept. (For text
  outside ASCII, Go maps each rune through the Unicode tables; those are not modelled.)
\<close>

definition lower_char :: "char \<Rightarrow> char" where
  "lower_char c =
     (if (65::nat) \<le> of_char c \<and> (of_char c :: nat) \<le> 90
      then char_of ((of_char c :: nat) + 32) else c)"

definition ToLower :: "string \<Rightarrow> string" where
  "ToLower s = map lower_char s"

text \<open>
  \<open>bufio.Reader.ReadString(delim)\<close> on the bytes that are still unread: the data up
  to and including the first delimiter and no error; when the input ends before a
  delimiter, the data read so far and the error \<open>io.EOF\<close> (the flag). The third
  component is what is left unread. The engine's standard output is taken to be a
  finite byte sequence that ends when the pipe closes; a read that blocks for ever, on
  a process that neither writes nor closes the pipe, has no counterpart here.
\<close>

fun ReadString :: "char \<Rightarrow> string \<Rightarrow> string \<times> bool \<times> string" where
  "ReadString delim [] = ([], True, [])"
| "ReadString delim (c # cs) =
     (if c = delim then ([c], False, cs)
      else (case ReadString delim cs of (line, err, rest) \<Rightarrow> (c # line, err, rest)))"

section \<open>The engine session (benchmark.go, lines 31 to 118)\<close>

text \<open>
  The process handle is left out of the record; \<open>stdin\<close> holds every byte written to
  the engine so far, \<open>reader\<close> the bytes of its standard output not yet read.
\<close>

record StockfishEngine =
  stdin :: string
  reader :: string
  depth :: int

definition send :: "StockfishEngine \<Rightarrow> string \<Rightarrow> StockfishEngine" where
  "send e cmd = e\<lparr>stdin := stdin e @ cmd @ [nl]\<rparr>"

function waitForReady_loop :: "string \<Rightarrow> string \<Rightarrow> string" where
  "waitForReady_loop token buf =
     (case ReadString nl buf of (line, err, rest) \<Rightarrow>
        if err \<or> Contains line token then rest
        else waitForReady_loop token rest)"
  by pat_completeness auto
termination
proof (relation "measure (\<lambda>(token, buf). length buf)")
  show "wf (measure (\<lambda>(token, buf). length buf))" by simp
next
  fix token buf line :: string and y :: "bool \<times> string" and err :: bool and rest :: string
  assume rd: "(line, y) = ReadString nl buf" "(err, rest) = y"
    and go: "\<not> (err \<or> Contains line token)"
  have shorter: "\<And>l r. ReadString nl b = (l, False, r) \<Longrightarrow> length r < length b" for b
    by (induction b) (auto split: if_splits prod.splits)
  from rd go have "ReadString nl buf = (line, False, rest)" by auto
  then have "length rest < length buf" by (rule shorter)
  then show "((token, rest), (token, buf)) \<in> measure (\<lambda>(token, buf). length buf)" by simp
qed

definition waitForReady :: "StockfishEngine \<Rightarrow> string \<Rightarrow> StockfishEngine" where
  "waitForReady e token = e\<lparr>reader := waitForReady_loop token (reader e)\<rparr>"

text \<open>
  Lines 89 to 104, the scan of one line for the marker: \<open>wdl\<close> is the triple held so
  far. The slice \<open>line[idx+5:]\<close> is \<^const>\<open>drop\<close>; it is never out of range, since
  the five bytes of the marker start at \<open>idx\<close> (lemma \<open>Index_bound\<close> below).
\<close>

definition parseWDL :: "int \<times> int \<times> int \<Rightarrow> string \<Rightarrow> int \<times> int \<times> int" where
  "parseWDL wdl line =
     (case wdl of (w, d, l) \<Rightarrow>
        (let idx = Index line '' wdl '' in
         if idx \<noteq> - 1 then
           (let rest = drop (nat (idx + 5)) line;
                parts = SplitN rest '' '' 4
            in if 3 \<le> length parts then
                 (let w' = (case Atoi (parts ! 0) of Some v \<Rightarrow> v | None \<Rightarrow> w);
                      d' = (case Atoi (parts ! 1) of Some v \<Rightarrow> v | None \<Rightarrow> d);
                      l' = (case Atoi (parts ! 2) of Some v \<Rightarrow> v | None \<Rightarrow> l)
                  in (w', d', l'))
               else (w, d, l))
         else (w, d, l)))"

function analyze_loop :: "int \<times> int \<times> int \<Rightarrow> string \<Rightarrow> (int \<times> int \<times> int) \<times> string" where
  "analyze_loop wdl buf =
     (case ReadString nl buf of (line, err, rest) \<Rightarrow>
        if err then (wdl, rest)
        else if HasPrefix line ''bestmove'' then (parseWDL wdl line, rest)
        else analyze_loop (parseWDL wdl line) rest)"
  by pat_completeness auto
termination
proof (relation "measure (\<lambda>(wdl, buf). length buf)")
  show "wf (measure (\<lambda>(wdl, buf). length buf))" by simp
next
  fix wdl :: "int \<times> int \<times> int" and buf line :: string
    and y :: "bool \<times> string" and err :: bool and rest :: string
  assume rd: "(line, y) = ReadString nl buf" "(err, rest) = y" and go: "\<not> err"
  have shorter: "\<And>l r. ReadString nl b = (l, False, r) \<Longrightarrow> length r < length b" for b
    by (induction b) (auto split: if_splits prod.splits)
  from rd go have "ReadString nl buf = (line, False, rest)" by auto
  then have "length rest < length buf" by (rule shorter)
  then show "((parseWDL wdl line, rest), (wdl, buf)) \<in> measure (\<lambda>(wdl, buf). length buf)"
    by simp
qed

definition analyze :: "StockfishEngine \<Rightarrow> string \<Rightarrow> (int \<times> int \<times> int) \<times> StockfishEngine" where
  "analyze e fen =
     (let e1 = send e (''position fen '' @ fen);
          e2 = send e1 (''go depth '' @ Itoa (depth e))
      in (case analyze_loop (333, 334, 333) (reader e2) of
            (wdl, rest) \<Rightarrow> (wdl, e2\<lparr>reader := rest\<rparr>)))"

definition quit :: "StockfishEngine \<Rightarrow> StockfishEngine" where
  "quit e = send e ''quit''"

text \<open>
  \<open>NewStockfishEngine\<close>. The operating system's part is the argument \<open>proc\<close>:
  \<open>None\<close> when \<open>cmd.Start()\<close> returns an error, \<open>Some out\<close> when the process
  starts, \<open>out\<close> being the bytes it writes to its standard output before the pipe
  closes. \<open>Inl\<close> is the non-nil error. (The source discards the errors of
  \<open>StdinPipe\<close> and \<open>StdoutPipe\<close>.)
\<close>

datatype error = StartError

definition NewStockfishEngine :: "string option \<Rightarrow> int \<Rightarrow> int \<Rightarrow> error + StockfishEngine" where
  "NewStockfishEngine proc threads depth' =
     (case proc of
        None \<Rightarrow> Inl StartError
      | Some out \<Rightarrow>
          (let e0 = \<lparr>stdin = [], reader = out, depth = depth'\<rparr>;
               e1 = send e0 ''uci'';
               e2 = waitForReady e1 ''uciok'';
               e3 = send e2 (''setoption name Threads value '' @ Itoa threads);
               e4 = send e3 ''setoption name UCI_ShowWDL value true'';
               e5 = send e4 ''isready'';
               e6 = waitForReady e5 ''readyok''
           in Inr e6))"

section \<open>The accuracy scorer (lines 120 to 136)\<close>

text \<open>
  \<open>float64\<close> values are modelled as \<^typ>\<open>real\<close>: the operations are those of the
  source, in the source's order, without the rounding of binary floating point.
\<close>

definition wdlToProb :: "int \<Rightarrow> int \<Rightarrow> int \<Rightarrow> bool \<Rightarrow> real" where
  "wdlToProb w d l isWhite =
     (case (if \<not> isWhite then (l, w) else (w, l)) of
        (w', l') \<Rightarrow> (real_of_int w' + real_of_int d * 0.5) / 1000.0)"

definition calcAccuracy :: "real \<Rightarrow> real \<Rightarrow> real" where
  "calcAccuracy before' after' =
     (if after' \<ge> before' then 100.0
      else (let acc = 100.0 * (1.0 - (before' - after') * 2.0)
            in if acc < 0 then 0 else acc))"

section \<open>The game analyzer (lines 166 to 238)\<close>

record PlayerData =
  Username :: string

record GameData =
  PGN :: string
  White :: "PlayerData option"
  Black :: "PlayerData option"

text \<open>
  The package \<open>github.com/notnil/chess\<close> is not part of the repository. What
  \<open>analyzeGame\<close> uses of it is a parameter, over a type \<open>'m\<close> of moves and a type
  \<open>'p\<close> of positions:
  \<^item> \<open>decode\<close>: \<open>chess.PGN\<close> on the text, then \<open>chess.NewGame(pgnGame).Moves()\<close>;
    \<open>None\<close> when \<open>chess.PGN\<close> returns an error;
  \<^item> \<open>NewGame\<close>: the position of \<open>chess.NewGame()\<close>;
  \<^item> \<open>Move\<close>: \<open>Game.Move\<close>, which returns an error (\<open>None\<close>) and leaves the game
    as it is when the move is not valid in the position;
  \<^item> \<open>Turn\<close> and \<open>String\<close>: the side to move and the position's text.
\<close>

datatype Color = WhiteToMove | BlackToMove

record ('m, 'p) chess =
  decode :: "string \<Rightarrow> 'm list option"
  NewGame :: 'p
  Move :: "'p \<Rightarrow> 'm \<Rightarrow> 'p option"
  Turn :: "'p \<Rightarrow> Color"
  String :: "'p \<Rightarrow> string"

text \<open>The six values \<open>analyzeGame\<close> returns, as the struct \<open>result\<close> of \<open>main\<close>.\<close>

record result =
  wa :: real
  ba :: real
  moves :: nat
  white :: string
  black :: string
  ok :: bool

definition absent :: result where
  "absent = \<lparr>wa = 0, ba = 0, moves = 0, white = [], black = [], ok = False\<rparr>"

text \<open>
  What a call of \<open>analyzeGame\<close> did with the engine: it never called
  \<open>NewStockfishEngine\<close>, or the call returned an error, or a session ran (the
  session as the deferred \<open>quit\<close> leaves it).
\<close>

datatype engine_use = NoEngine | StartFailed | Ran StockfishEngine

text \<open>Lines 208 to 221, the loop over the moves.\<close>

fun moveLoop :: "('m, 'p) chess \<Rightarrow> 'm list \<Rightarrow> 'p \<Rightarrow> int \<times> int \<times> int \<Rightarrow> real list \<Rightarrow> real list
    \<Rightarrow> StockfishEngine \<Rightarrow> real list \<times> real list \<times> StockfishEngine" where
  "moveLoop lib [] pos prev whiteAcc blackAcc engine = (whiteAcc, blackAcc, engine)"
| "moveLoop lib (mv # rest) pos prev whiteAcc blackAcc engine =
     (case prev of (pw, pd, pl) \<Rightarrow>
        (let isWhite = (Turn lib pos = WhiteToMove);
             pos' = (case Move lib pos mv of None \<Rightarrow> pos | Some p \<Rightarrow> p)
         in (case analyze engine (String lib pos') of
               ((cw, cd, cl), engine') \<Rightarrow>
                 (let acc = calcAccuracy (wdlToProb pw pd pl isWhite) (wdlToProb cw cd cl isWhite)
                  in if isWhite
                     then moveLoop lib rest pos' (cw, cd, cl) (whiteAcc @ [acc]) blackAcc engine'
                     else moveLoop lib rest pos' (cw, cd, cl) whiteAcc (blackAcc @ [acc]) engine'))))"

text \<open>Lines 205 to 221: the evaluation of the starting position, then the loop.\<close>

definition scoreMoves :: "('m, 'p) chess \<Rightarrow> StockfishEngine \<Rightarrow> 'm list
    \<Rightarrow> real list \<times> real list \<times> StockfishEngine" where
  "scoreMoves lib engine mvs =
     (case analyze engine (String lib (NewGame lib)) of
        (prev, engine') \<Rightarrow> moveLoop lib mvs (NewGame lib) prev [] [] engine')"

text \<open>Lines 223 to 235, once for each side: the sum in list order, divided by the length.\<close>

definition meanAcc :: "real list \<Rightarrow> real" where
  "meanAcc acc = (if length acc > 0 then foldl (+) 0.0 acc / real (length acc) else 0.0)"

definition analyzeGame :: "('m, 'p) chess \<Rightarrow> string option \<Rightarrow> GameData \<Rightarrow> string \<Rightarrow> int \<Rightarrow> int
    \<Rightarrow> result \<times> engine_use" where
  "analyzeGame lib proc g username sfThreads depth' =
     (if PGN g = [] then (absent, NoEngine)
      else
        (let white' = (case White g of None \<Rightarrow> [] | Some p \<Rightarrow> ToLower (Username p));
             black' = (case Black g of None \<Rightarrow> [] | Some p \<Rightarrow> ToLower (Username p));
             target = ToLower username
         in if white' \<noteq> target \<and> black' \<noteq> target then (absent, NoEngine)
            else
              (case decode lib (PGN g) of
                 None \<Rightarrow> (absent, NoEngine)
               | Some mvs \<Rightarrow>
                   if length mvs = 0 then (absent, NoEngine)
                   else
                     (case NewStockfishEngine proc sfThreads depth' of
                        Inl err \<Rightarrow> (absent, StartFailed)
                      | Inr engine \<Rightarrow>
                          (case scoreMoves lib engine mvs of
                             (whiteAcc, blackAcc, engine') \<Rightarrow>
                               (\<lparr>wa = meanAcc whiteAcc, ba = meanAcc blackAcc,
                                 moves = length whiteAcc + length blackAcc,
                                 white = white', black = black', ok = True\<rparr>,
                                Ran (quit engine')))))))"

text \<open>
  A small stand-in for the chess library, for evaluating the analyzer on concrete
  games: a move is a character, a position is the number of moves made, any move
  other than \<open>x\<close> applies, and the sides alternate. Decoding keeps the characters
  of the text as the moves and drops every \<open>?\<close>, a token that is no move.
\<close>

definition toy :: "(char, nat) chess" where
  "toy = \<lparr>decode = (\<lambda>s. Some (filter (\<lambda>c. c \<noteq> CHR ''?'') s)),
          NewGame = 0,
          Move = (\<lambda>p m. if m = CHR ''x'' then None else Some (Suc p)),
          Turn = (\<lambda>p. if even p then WhiteToMove else BlackToMove),
          String = (\<lambda>p. replicate p CHR ''m'')\<rparr>"

section \<open>Notions used to state the properties\<close>

text \<open>
  A line as \<open>ReadString\<close> returns it: it ends with the newline and has no other.
\<close>

definition isLine :: "string \<Rightarrow> bool" where
  "isLine s \<longleftrightarrow> s \<noteq> [] \<and> last s = nl \<and> nl \<notin> set (butlast s)"

text \<open>Every move of the list applies, one after the other, starting from \<open>pos\<close>.\<close>

fun allApply :: "('m, 'p) chess \<Rightarrow> 'p \<Rightarrow> 'm list \<Rightarrow> bool" where
  "allApply lib pos [] = True"
| "allApply lib pos (mv # rest) =
     (case Move lib pos mv of None \<Rightarrow> False | Some pos' \<Rightarrow> allApply lib pos' rest)"

declare analyze_loop.simps [simp del] waitForReady_loop.simps [simp del]

section \<open>Reading lines and splitting fields\<close>

lemma ReadString_line: "nl \<notin> set l \<Longrightarrow> ReadString nl (l @ nl # rest) = (l @ [nl], False, rest)"
  by (induction l) auto

lemma ReadString_isLine: "isLine s \<Longrightarrow> ReadString nl (s @ rest) = (s, False, rest)"
proof -
  assume "isLine s"
  then have "s = butlast s @ [nl]" and "nl \<notin> set (butlast s)"
    by (auto simp: isLine_def dest: append_butlast_last_id)
  with ReadString_line [of "butlast s" rest] show ?thesis
    by (metis append_Cons append_Nil append_assoc)
qed

lemma analyze_loop_line:
  "isLine s \<Longrightarrow> analyze_loop t (s @ rest) =
     (if HasPrefix s ''bestmove'' then (parseWDL t s, rest)
      else analyze_loop (parseWDL t s) rest)"
  by (subst analyze_loop.simps) (simp add: ReadString_isLine)

lemma analyze_loop_lines:
  assumes "\<forall>s \<in> set pre. isLine s \<and> \<not> HasPrefix s ''bestmove''"
    and "isLine bm" and "HasPrefix bm ''bestmove''"
  shows "analyze_loop t (concat pre @ bm @ rest) = (parseWDL (foldl parseWDL t pre) bm, rest)"
  using assms
proof (induction pre arbitrary: t)
  case Nil
  then show ?case by (simp add: analyze_loop_line)
next
  case (Cons s pre)
  then show ?case by (simp add: analyze_loop_line)
qed

lemma Index_ge: "- 1 \<le> Index s sep"
  by (induction s) (auto simp: Let_def)

lemma Index_bound:
  "0 \<le> Index s sep \<Longrightarrow> nat (Index s sep) + length sep \<le> length s
     \<and> take (length sep) (drop (nat (Index s sep)) s) = sep"
proof (induction s)
  case Nil
  then show ?case by (auto split: if_splits)
next
  case (Cons c cs)
  show ?case
  proof (cases "HasPrefix (c # cs) sep")
    case True
    then show ?thesis by (simp add: HasPrefix_def)
  next
    case False
    with Cons.prems have nn: "0 \<le> Index cs sep" and eq: "Index (c # cs) sep = Index cs sep + 1"
      by (auto simp: Let_def split: if_splits)
    from Cons.IH [OF nn] eq nn show ?thesis by (simp add: nat_add_distrib)
  qed
qed

lemma Index_char:
  "Index s [c] = (if c \<in> set s then int (length (takeWhile (\<lambda>x. x \<noteq> c) s)) else - 1)"
  by (induction s) (auto simp: HasPrefix_def Let_def)

lemma parseWDL_no_marker:
  assumes "\<not> Contains line '' wdl ''"
  shows "parseWDL t line = t"
proof -
  from assms Index_ge [of line "'' wdl ''"] have "Index line '' wdl '' = - 1"
    by (simp add: Contains_def)
  then show ?thesis by (cases t) (simp add: parseWDL_def)
qed

lemma foldl_parseWDL_no_marker:
  "\<forall>s \<in> set ls. \<not> Contains s '' wdl '' \<Longrightarrow> foldl parseWDL t ls = t"
  by (induction ls arbitrary: t) (simp_all add: parseWDL_no_marker)


lemma SplitN_fields:
  assumes "CHR '' '' \<notin> set f1" and "CHR '' '' \<notin> set f2"
  shows "SplitN (f1 @ '' '' @ f2 @ '' '' @ t3) '' '' 4
       = [f1, f2] @ SplitN t3 '' '' 2"
proof -
  have idx: "Index (f @ CHR '' '' # r) '' '' = int (length f)" if "CHR '' '' \<notin> set f" for f r
    using that by (simp add: Index_char takeWhile_append)
  have step: "SplitN (f @ CHR '' '' # r) '' '' (Suc (Suc k)) = f # SplitN r '' '' (Suc k)"
    if "CHR '' '' \<notin> set f" for f r k
    using that by (simp add: idx Let_def)
  have "SplitN (f1 @ CHR '' '' # f2 @ CHR '' '' # t3) '' '' (Suc (Suc (Suc (Suc 0))))
      = f1 # f2 # SplitN t3 '' '' (Suc (Suc 0))"
    by (simp only: step [OF assms(1)] step [OF assms(2)])
  then show ?thesis by (simp add: numeral_eq_Suc del: SplitN.simps)
qed

lemma SplitN_third:
  "SplitN t3 '' '' 2 \<noteq> [] \<and> hd (SplitN t3 '' '' 2) = takeWhile (\<lambda>c. c \<noteq> CHR '' '') t3"
proof (cases "CHR '' '' \<in> set t3")
  case True
  then show ?thesis
    using takeWhile_eq_take [of "\<lambda>c. c \<noteq> CHR '' ''" t3]
    by (simp add: numeral_eq_Suc Index_char Let_def)
next
  case False
  then have "takeWhile (\<lambda>c. c \<noteq> CHR '' '') t3 = t3"
    by (simp add: takeWhile_eq_all_conv) metis
  moreover from False have "SplitN t3 '' '' 2 = [t3]"
    by (simp add: numeral_eq_Suc Index_char Let_def)
  ultimately show ?thesis
    by (simp del: takeWhile_eq_all_conv)
qed

lemma Atoi_no_space:
  assumes "Atoi f = Some v"
  shows "CHR '' '' \<notin> set f"
proof
  assume sp: "CHR '' '' \<in> set f"
  have nd: "\<not> is_digit CHR '' ''" by (simp add: is_digit_def)
  from assms have f: "f \<noteq> []" by (auto simp: Atoi_def Let_def split: if_splits)
  from assms have "list_all is_digit (if hd f = CHR ''-'' \<or> hd f = CHR ''+'' then tl f else f)"
    using f by (auto simp: Atoi_def Let_def split: if_splits)
  with sp nd f show False
    by (cases f) (auto simp: list_all_iff split: if_splits)
qed


lemma parseWDL_three_fields:
  assumes idx: "Index line '' wdl '' = int (length p)"
    and line: "line = p @ '' wdl '' @ f1 @ '' '' @ f2 @ '' '' @ t3"
    and f1: "CHR '' '' \<notin> set f1" and f2: "CHR '' '' \<notin> set f2"
  shows "parseWDL (w, d, l) line =
     (case Atoi f1 of Some v \<Rightarrow> v | None \<Rightarrow> w,
      case Atoi f2 of Some v \<Rightarrow> v | None \<Rightarrow> d,
      case Atoi (takeWhile (\<lambda>c. c \<noteq> CHR '' '') t3) of Some v \<Rightarrow> v | None \<Rightarrow> l)"
proof -
  have rest: "drop (nat (Index line '' wdl '' + 5)) line = f1 @ '' '' @ f2 @ '' '' @ t3"
    by (simp only: idx) (simp add: line nat_add_distrib)
  obtain x xs where third: "SplitN t3 '' '' 2 = x # xs"
    and x: "x = takeWhile (\<lambda>c. c \<noteq> CHR '' '') t3"
    using SplitN_third [of t3] by (cases "SplitN t3 '' '' 2") auto
  have parts: "SplitN (f1 @ '' '' @ f2 @ '' '' @ t3) '' '' 4 = f1 # f2 # x # xs"
    using SplitN_fields [OF f1 f2, of t3] third by simp
  have ne: "Index line '' wdl '' \<noteq> - 1" by (simp add: idx)
  show ?thesis
    unfolding parseWDL_def Let_def rest parts using ne x by simp
qed




lemma analyze_stream:
  assumes lines: "\<forall>s \<in> set ls. isLine s"
    and split: "ls = pre @ [bm]"
    and first: "\<forall>s \<in> set pre. \<not> HasPrefix s ''bestmove''"
    and best: "HasPrefix bm ''bestmove''"
    and rd: "reader e = concat ls @ rest"
  shows "fst (analyze e fen) = foldl parseWDL (333, 334, 333) ls"
    and "reader (snd (analyze e fen)) = rest"
proof -
  from lines split first have pre: "\<forall>s \<in> set pre. isLine s \<and> \<not> HasPrefix s ''bestmove''"
    and bm: "isLine bm" by auto
  have "analyze_loop (333, 334, 333) (concat ls @ rest)
      = (foldl parseWDL (333, 334, 333) ls, rest)"
    using analyze_loop_lines [OF pre bm best, of "(333, 334, 333)" rest] by (simp add: split)
  then show "fst (analyze e fen) = foldl parseWDL (333, 334, 333) ls"
    and "reader (snd (analyze e fen)) = rest"
    by (simp_all add: analyze_def send_def rd Let_def)
qed

section \<open>The loop over the moves\<close>

lemma moveLoop_total:
  "moveLoop lib mvs pos prev whiteAcc blackAcc e = (whiteAcc', blackAcc', e')
   \<Longrightarrow> length whiteAcc' + length blackAcc' = length whiteAcc + length blackAcc + length mvs"
proof (induction mvs arbitrary: pos prev whiteAcc blackAcc e)
  case Nil
  then show ?case by simp
next
  case (Cons mv mvs)
  obtain pw pd pl where prev: "prev = (pw, pd, pl)" by (cases prev) auto
  let ?pos = "case Move lib pos mv of None \<Rightarrow> pos | Some p \<Rightarrow> p"
  obtain cw cd cl e1 where an: "analyze e (String lib ?pos) = ((cw, cd, cl), e1)"
    by (cases "analyze e (String lib ?pos)") auto
  show ?case
  proof (cases "Turn lib pos = WhiteToMove")
    case True
    with Cons.prems prev an Cons.IH [of ?pos "(cw, cd, cl)" _ blackAcc e1] show ?thesis
      by (simp add: Let_def)
  next
    case False
    with Cons.prems prev an Cons.IH [of ?pos "(cw, cd, cl)" whiteAcc _ e1] show ?thesis
      by (simp add: Let_def)
  qed
qed

lemma moveLoop_sides:
  assumes flips: "\<forall>p m p'. Move lib p m = Some p' \<longrightarrow> Turn lib p' \<noteq> Turn lib p"
  shows "allApply lib pos mvs \<Longrightarrow>
     moveLoop lib mvs pos prev whiteAcc blackAcc e = (whiteAcc', blackAcc', e') \<Longrightarrow>
     length whiteAcc' = length whiteAcc
        + (if Turn lib pos = WhiteToMove then (length mvs + 1) div 2 else length mvs div 2)
     \<and> length blackAcc' = length blackAcc
        + (if Turn lib pos = WhiteToMove then length mvs div 2 else (length mvs + 1) div 2)"
proof (induction mvs arbitrary: pos prev whiteAcc blackAcc e)
  case Nil
  then show ?case by simp
next
  case (Cons mv mvs)
  obtain pw pd pl where prev: "prev = (pw, pd, pl)" by (cases prev) auto
  from Cons.prems(1) obtain pos' where mv: "Move lib pos mv = Some pos'"
    and rest: "allApply lib pos' mvs"
    by (auto split: option.splits)
  from flips mv have turn: "Turn lib pos' \<noteq> Turn lib pos" by blast
  obtain cw cd cl e1 where an: "analyze e (String lib pos') = ((cw, cd, cl), e1)"
    by (cases "analyze e (String lib pos')") auto
  show ?case
  proof (cases "Turn lib pos = WhiteToMove")
    case True
    with turn have black: "Turn lib pos' \<noteq> WhiteToMove" by simp
    from Cons.prems(2) prev an mv True
    have "moveLoop lib mvs pos' (cw, cd, cl)
        (whiteAcc @ [calcAccuracy (wdlToProb pw pd pl True) (wdlToProb cw cd cl True)])
        blackAcc e1 = (whiteAcc', blackAcc', e')"
      by (simp add: Let_def)
    from Cons.IH [OF rest this] black True show ?thesis by simp
  next
    case False
    with turn have white: "Turn lib pos' = WhiteToMove"
      by (cases "Turn lib pos'"; cases "Turn lib pos") auto
    from Cons.prems(2) prev an mv False
    have "moveLoop lib mvs pos' (cw, cd, cl) whiteAcc
        (blackAcc @ [calcAccuracy (wdlToProb pw pd pl False) (wdlToProb cw cd cl False)])
        e1 = (whiteAcc', blackAcc', e')"
      by (simp add: Let_def)
    from Cons.IH [OF rest this] white False show ?thesis by simp
  qed
qed

lemma foldl_plus: "foldl (+) a xs = a + sum_list xs" for a :: real
  by (induction xs arbitrary: a) simp_all

lemma meanAcc_mean: "meanAcc acc = (if acc = [] then 0 else sum_list acc / real (length acc))"
  by (simp add: meanAcc_def foldl_plus)

lemma analyzeGame_ok:
  assumes "analyzeGame lib proc g username sfThreads depth' = (r, u)" and "ok r"
  obtains mvs engine whiteAcc blackAcc engine' where
    "decode lib (PGN g) = Some mvs" "mvs \<noteq> []"
    "NewStockfishEngine proc sfThreads depth' = Inr engine"
    "scoreMoves lib engine mvs = (whiteAcc, blackAcc, engine')"
    "r = \<lparr>wa = meanAcc whiteAcc, ba = meanAcc blackAcc,
          moves = length whiteAcc + length blackAcc,
          white = (case White g of None \<Rightarrow> [] | Some p \<Rightarrow> ToLower (Username p)),
          black = (case Black g of None \<Rightarrow> [] | Some p \<Rightarrow> ToLower (Username p)), ok = True\<rparr>"
    "u = Ran (quit engine')"
  using assms
  by (auto simp: analyzeGame_def Let_def absent_def split: if_splits option.splits sum.splits prod.splits)

section \<open>Properties of the accuracy scorer\<close>

text \<open>
  Claim C2. \<open>calcAccuracy\<close> returns 100 when the probability after the move is at
  least the probability before it, and otherwise the larger of 0 and
  \<open>100 * (1 - 2 * (before - after))\<close>. In particular a move that keeps the probability
  scores 100, and a drop of one half or more scores 0.
\<close>

theorem calcAccuracy_formula:
  "calcAccuracy probBefore probAfter =
     (if probAfter \<ge> probBefore then 100
      else max 0 (100 * (1 - 2 * (probBefore - probAfter))))
   \<and> calcAccuracy p p = 100
   \<and> (probBefore - probAfter \<ge> 1 / 2 \<longrightarrow> calcAccuracy probBefore probAfter = 0)"
proof -
  have formula: "calcAccuracy probBefore probAfter =
      (if probAfter \<ge> probBefore then 100
       else max 0 (100 * (1 - 2 * (probBefore - probAfter))))"
    by (simp add: calcAccuracy_def Let_def max_def mult.commute)
  have same: "calcAccuracy p p = 100"
    by (simp add: calcAccuracy_def)
  have floor: "calcAccuracy probBefore probAfter = 0" if drop: "probBefore - probAfter \<ge> 1 / 2"
  proof -
    from drop have "\<not> probAfter \<ge> probBefore" and "100 * (1 - 2 * (probBefore - probAfter)) \<le> 0"
      by simp_all
    with formula show ?thesis by (simp add: max_def)
  qed
  from formula same floor show ?thesis by blast
qed

theorem calcAccuracy_formula_witness:
  "(9 / 10 :: real) - 3 / 10 \<ge> 1 / 2 \<and> calcAccuracy (9 / 10) (3 / 10) = 0
   \<and> calcAccuracy (6 / 10) (5 / 10) = 80 \<and> calcAccuracy (1 / 2) (1 / 2) = 100"
proof -
  have drop: "(9 / 10 :: real) - 3 / 10 \<ge> 1 / 2" by simp
  from calcAccuracy_formula [of "9 / 10" "3 / 10" "1 / 2"] drop
  have "calcAccuracy (9 / 10) (3 / 10) = 0" and "calcAccuracy (1 / 2) (1 / 2) = 100"
    by blast+
  moreover from calcAccuracy_formula [of "6 / 10" "5 / 10" 0]
  have "calcAccuracy (6 / 10) (5 / 10) = 80" by simp
  ultimately show ?thesis using drop by blast
qed

text \<open>
  Claim C3. For White (\<open>isWhite\<close> true) \<open>wdlToProb\<close> is \<open>(w + 0.5 * d) / 1000\<close>; for
  Black it swaps \<open>w\<close> and \<open>l\<close> first, which gives \<open>(l + 0.5 * d) / 1000\<close>. A certain
  win is 1 for White, a certain loss is 0, and a certain draw is one half for either
  side.
\<close>

theorem wdlToProb_formula:
  "wdlToProb w d l True = (real_of_int w + 0.5 * real_of_int d) / 1000
   \<and> wdlToProb w d l False = (real_of_int l + 0.5 * real_of_int d) / 1000
   \<and> wdlToProb w d l False = wdlToProb l d w True
   \<and> wdlToProb 1000 0 0 True = 1
   \<and> wdlToProb 0 0 1000 True = 0
   \<and> wdlToProb 0 1000 0 s = 0.5"
  by (cases s) (simp_all add: wdlToProb_def)

text \<open>
  Claim C10. When the three components add up to 1000, the probabilities for the two
  sides add up to 1.
\<close>

theorem wdlToProb_complementary:
  assumes "w + d + l = 1000"
  shows "wdlToProb w d l True + wdlToProb w d l False = 1"
proof -
  have "wdlToProb w d l True + wdlToProb w d l False
      = (real_of_int w + real_of_int d + real_of_int l) / 1000"
    by (simp add: wdlToProb_def field_simps)
  also have "real_of_int w + real_of_int d + real_of_int l = real_of_int (w + d + l)"
    by simp
  also have "\<dots> = 1000" using assms by simp
  finally show ?thesis by simp
qed

theorem wdlToProb_complementary_witness:
  "(333::int) + 334 + 333 = 1000 \<and> wdlToProb 333 334 333 True + wdlToProb 333 334 333 False = 1"
proof -
  have sum: "(333::int) + 334 + 333 = 1000" by simp
  from wdlToProb_complementary [OF sum] sum show ?thesis by blast
qed

section \<open>Properties of the engine session\<close>

text \<open>
  Claim C1, as the code has it. The engine's output is a sequence of lines that ends at
  the first line starting with \<open>bestmove\<close>. The evaluation reads exactly these lines.
  If none of them, the \<open>bestmove\<close> line included, bears the marker, the result is
  (333, 334, 333). If the last line that bears the marker, the \<open>bestmove\<close> line
  included, has after its first marker three integers that are each followed by a
  space, the result is these three integers.
\<close>

theorem analyze_last_wdl:
  assumes lines: "\<forall>s \<in> set ls. isLine s"
    and split: "ls = pre @ [bm]"
    and first: "\<forall>s \<in> set pre. \<not> HasPrefix s ''bestmove''"
    and best: "HasPrefix bm ''bestmove''"
    and rd: "reader e = concat ls @ rest"
  shows "((\<forall>s \<in> set ls. \<not> Contains s '' wdl '') \<longrightarrow> fst (analyze e fen) = (333, 334, 333))
    \<and> (\<forall>xs s ys p fw fd fl more w d l.
          ls = xs @ [s] @ ys \<and> (\<forall>y \<in> set ys. \<not> Contains y '' wdl '')
          \<and> s = p @ '' wdl '' @ fw @ '' '' @ fd @ '' '' @ fl @ '' '' @ more
          \<and> Index s '' wdl '' = int (length p)
          \<and> Atoi fw = Some w \<and> Atoi fd = Some d \<and> Atoi fl = Some l
          \<longrightarrow> fst (analyze e fen) = (w, d, l))
    \<and> reader (snd (analyze e fen)) = rest"
proof (intro conjI allI impI)
  note run = analyze_stream [OF lines split first best rd, of fen]
  show "reader (snd (analyze e fen)) = rest" by (rule run(2))
  show "fst (analyze e fen) = (333, 334, 333)" if "\<forall>s \<in> set ls. \<not> Contains s '' wdl ''"
    using that by (simp add: run(1) foldl_parseWDL_no_marker)
  fix xs s ys p fw fd fl more w d l
  assume h: "ls = xs @ [s] @ ys \<and> (\<forall>y \<in> set ys. \<not> Contains y '' wdl '')
          \<and> s = p @ '' wdl '' @ fw @ '' '' @ fd @ '' '' @ fl @ '' '' @ more
          \<and> Index s '' wdl '' = int (length p)
          \<and> Atoi fw = Some w \<and> Atoi fd = Some d \<and> Atoi fl = Some l"
  then have ls: "ls = xs @ [s] @ ys" and ys: "\<forall>y \<in> set ys. \<not> Contains y '' wdl ''"
    and s: "s = p @ '' wdl '' @ fw @ '' '' @ fd @ '' '' @ (fl @ '' '' @ more)"
    and idx: "Index s '' wdl '' = int (length p)"
    and fw: "Atoi fw = Some w" and fd: "Atoi fd = Some d" and fl: "Atoi fl = Some l"
    by blast+
  obtain w0 d0 l0 where held: "foldl parseWDL (333, 334, 333) xs = (w0, d0, l0)"
    by (cases "foldl parseWDL (333, 334, 333) xs") auto
  have third: "takeWhile (\<lambda>c. c \<noteq> CHR '' '') (fl @ '' '' @ more) = fl"
    using Atoi_no_space [OF fl] by (simp add: takeWhile_append)
  have "parseWDL (w0, d0, l0) s = (w, d, l)"
    using parseWDL_three_fields [OF idx s Atoi_no_space [OF fw] Atoi_no_space [OF fd], of w0 d0 l0]
    by (simp only: third fw fd fl option.case)
  then have "foldl parseWDL (333, 334, 333) ls = (w, d, l)"
    by (simp add: ls held foldl_parseWDL_no_marker [OF ys])
  then show "fst (analyze e fen) = (w, d, l)" by (simp add: run(1))
qed


theorem analyze_last_wdl_witness:
  "HasPrefix ''bestmove e2e4 ponder e7e5\<newline>'' ''bestmove''
   \<and> Atoi ''927'' = Some 927
   \<and> fst (analyze
        \<lparr>stdin = [],
         reader = ''info depth 1 score cp 9 wdl 100 800 100 nodes 20\<newline>info depth 2 score cp 31 wdl 58 927 15 nodes 64\<newline>info string done\<newline>bestmove e2e4 ponder e7e5\<newline>readyok\<newline>'',
         depth = 2\<rparr> ''startpos'') = (58, 927, 15)
   \<and> reader (snd (analyze
        \<lparr>stdin = [],
         reader = ''info depth 1 score cp 9 wdl 100 800 100 nodes 20\<newline>info depth 2 score cp 31 wdl 58 927 15 nodes 64\<newline>info string done\<newline>bestmove e2e4 ponder e7e5\<newline>readyok\<newline>'',
         depth = 2\<rparr> ''startpos'')) = ''readyok\<newline>''"
proof -
  let ?l1 = "''info depth 1 score cp 9 wdl 100 800 100 nodes 20\<newline>''"
  let ?l2 = "''info depth 2 score cp 31 wdl 58 927 15 nodes 64\<newline>''"
  let ?l3 = "''info string done\<newline>''"
  let ?bm = "''bestmove e2e4 ponder e7e5\<newline>''"
  let ?e = "\<lparr>stdin = [],
         reader = ''info depth 1 score cp 9 wdl 100 800 100 nodes 20\<newline>info depth 2 score cp 31 wdl 58 927 15 nodes 64\<newline>info string done\<newline>bestmove e2e4 ponder e7e5\<newline>readyok\<newline>'',
         depth = 2\<rparr>"
  have lines: "\<forall>s \<in> set [?l1, ?l2, ?l3, ?bm]. isLine s"
    by (simp add: isLine_def nl_def)
  have split: "[?l1, ?l2, ?l3, ?bm] = [?l1, ?l2, ?l3] @ [?bm]" by simp
  have first: "\<forall>s \<in> set [?l1, ?l2, ?l3]. \<not> HasPrefix s ''bestmove''"
    by (simp add: HasPrefix_def)
  have best: "HasPrefix ?bm ''bestmove''" by (simp add: HasPrefix_def)
  have rd: "reader ?e = concat [?l1, ?l2, ?l3, ?bm] @ ''readyok\<newline>''" by simp
  note inst = analyze_last_wdl [OF lines split first best rd, of "''startpos''"]
  have later: "\<forall>y \<in> set [?l3, ?bm]. \<not> Contains y '' wdl ''"
    by (simp add: Contains_def HasPrefix_def)
  have fields: "?l2 = ''info depth 2 score cp 31'' @ '' wdl '' @ ''58'' @ '' '' @ ''927'' @ '' ''
      @ ''15'' @ '' '' @ ''nodes 64\<newline>''" by simp
  have idx: "Index ?l2 '' wdl '' = int (length ''info depth 2 score cp 31'')"
    by (simp add: HasPrefix_def)
  have w: "Atoi ''58'' = Some 58" and d: "Atoi ''927'' = Some 927" and l: "Atoi ''15'' = Some 15"
    by (simp_all add: Atoi_def is_digit_def digits_val_def)
  have whole: "[?l1, ?l2, ?l3, ?bm] = [?l1] @ [?l2] @ [?l3, ?bm]" by simp
  from inst have "fst (analyze ?e ''startpos'') = (58, 927, 15)"
    using whole later fields idx w d l by blast
  moreover from inst have "reader (snd (analyze ?e ''startpos'')) = ''readyok\<newline>''"
    by blast
  ultimately show ?thesis using best d by blast
qed

text \<open>
  The claim as it is written fails twice. A line that ends right after its third
  number gives the third component the newline with it, which is no integer, so the
  third component stays as it was. And the \<open>bestmove\<close> line is scanned as well: its
  numbers are returned although no line before it bears the marker.
\<close>

theorem analyze_last_wdl_counterexample:
  "fst (analyze \<lparr>stdin = [],
          reader = ''info depth 1 score cp 0 wdl 100 800 100\<newline>bestmove e2e4\<newline>'',
          depth = 1\<rparr> ''startpos'') = (100, 800, 333)
   \<and> fst (analyze \<lparr>stdin = [], reader = ''bestmove e2e4 wdl 1 2 3 \<newline>'', depth = 1\<rparr>
          ''startpos'') = (1, 2, 3)"
  by code_simp




section \<open>Properties of the game analyzer\<close>

text \<open>
  Claim C5. When the record has no move text, or when neither recorded username equals
  the target username after both are put in lower case (an absent player counts as the
  empty username, as in the code), \<open>analyzeGame\<close> returns the absent result,
  \<open>ok = false\<close>, and has not called \<open>NewStockfishEngine\<close>.
\<close>

theorem analyzeGame_rejects:
  assumes "PGN g = []
    \<or> ((case White g of None \<Rightarrow> [] | Some p \<Rightarrow> ToLower (Username p)) \<noteq> ToLower username
       \<and> (case Black g of None \<Rightarrow> [] | Some p \<Rightarrow> ToLower (Username p)) \<noteq> ToLower username)"
  shows "analyzeGame lib proc g username sfThreads depth' = (absent, NoEngine) \<and> \<not> ok absent"
  using assms by (auto simp: analyzeGame_def Let_def absent_def)

theorem analyzeGame_rejects_witness:
  "analyzeGame toy (Some ''uciok\<newline>readyok\<newline>'')
      \<lparr>PGN = [], White = Some \<lparr>Username = ''hikaru''\<rparr>, Black = None\<rparr> ''hikaru'' 1 4
     = (absent, NoEngine)
   \<and> ToLower ''Magnus'' \<noteq> ToLower ''hikaru'' \<and> ToLower ''Fabi'' \<noteq> ToLower ''hikaru''
   \<and> analyzeGame toy (Some ''uciok\<newline>readyok\<newline>'')
      \<lparr>PGN = ''ab'', White = Some \<lparr>Username = ''Magnus''\<rparr>,
       Black = Some \<lparr>Username = ''Fabi''\<rparr>\<rparr> ''hikaru'' 1 4
     = (absent, NoEngine)
   \<and> ToLower ''Hikaru'' = ToLower ''hikaru''
   \<and> ok (fst (analyzeGame toy (Some ''uciok\<newline>readyok\<newline>'')
      \<lparr>PGN = ''ab'', White = Some \<lparr>Username = ''Magnus''\<rparr>,
       Black = Some \<lparr>Username = ''Hikaru''\<rparr>\<rparr> ''hikaru'' 1 4))"
proof -
  let ?g1 = "\<lparr>PGN = [], White = Some \<lparr>Username = ''hikaru''\<rparr>, Black = None\<rparr>"
  let ?g2 = "\<lparr>PGN = ''ab'', White = Some \<lparr>Username = ''Magnus''\<rparr>,
       Black = Some \<lparr>Username = ''Fabi''\<rparr>\<rparr>"
  have names: "ToLower ''Magnus'' \<noteq> ToLower ''hikaru''" "ToLower ''Fabi'' \<noteq> ToLower ''hikaru''"
    "ToLower ''Hikaru'' = ToLower ''hikaru''"
    by code_simp+
  have "PGN ?g1 = []" by simp
  then have one: "analyzeGame toy (Some ''uciok\<newline>readyok\<newline>'') ?g1 ''hikaru'' 1 4
      = (absent, NoEngine)"
    using analyzeGame_rejects [of ?g1 "''hikaru''" toy "Some ''uciok\<newline>readyok\<newline>''" 1 4]
    by blast
  have "(case White ?g2 of None \<Rightarrow> [] | Some p \<Rightarrow> ToLower (Username p)) \<noteq> ToLower ''hikaru''
      \<and> (case Black ?g2 of None \<Rightarrow> [] | Some p \<Rightarrow> ToLower (Username p)) \<noteq> ToLower ''hikaru''"
    using names by simp
  then have two: "analyzeGame toy (Some ''uciok\<newline>readyok\<newline>'') ?g2 ''hikaru'' 1 4
      = (absent, NoEngine)"
    using analyzeGame_rejects [of ?g2 "''hikaru''" toy "Some ''uciok\<newline>readyok\<newline>''" 1 4]
    by blast
  have three: "ok (fst (analyzeGame toy (Some ''uciok\<newline>readyok\<newline>'')
      \<lparr>PGN = ''ab'', White = Some \<lparr>Username = ''Magnus''\<rparr>,
       Black = Some \<lparr>Username = ''Hikaru''\<rparr>\<rparr> ''hikaru'' 1 4))"
    by code_simp
  from one two three names show ?thesis by blast
qed

text \<open>
  Claim C6. For a game that was analyzed (\<open>ok\<close> holds), each side's accuracy is the
  arithmetic mean of that side's list of move accuracies, and 0 when the list is empty;
  the number of moves is the sum of the two lengths. When White is to move in the
  starting position, every move that applies passes the turn to the other side, and
  the four moves of the game all apply, the lists have two entries each and the number
  of moves is 4.
\<close>

theorem analyzeGame_aggregate:
  assumes run: "analyzeGame lib proc g username sfThreads depth' = (r, u)" and ok: "ok r"
  shows "\<exists>mvs engine whiteAcc blackAcc engine'.
      decode lib (PGN g) = Some mvs
    \<and> NewStockfishEngine proc sfThreads depth' = Inr engine
    \<and> scoreMoves lib engine mvs = (whiteAcc, blackAcc, engine')
    \<and> wa r = (if whiteAcc = [] then 0 else sum_list whiteAcc / real (length whiteAcc))
    \<and> ba r = (if blackAcc = [] then 0 else sum_list blackAcc / real (length blackAcc))
    \<and> moves r = length whiteAcc + length blackAcc
    \<and> (Turn lib (NewGame lib) = WhiteToMove
        \<and> (\<forall>p m p'. Move lib p m = Some p' \<longrightarrow> Turn lib p' \<noteq> Turn lib p)
        \<and> allApply lib (NewGame lib) mvs \<and> length mvs = 4
        \<longrightarrow> length whiteAcc = 2 \<and> length blackAcc = 2 \<and> moves r = 4)"
proof -
  from run ok obtain mvs engine whiteAcc blackAcc engine' where
    dec: "decode lib (PGN g) = Some mvs"
    and eng: "NewStockfishEngine proc sfThreads depth' = Inr engine"
    and sc: "scoreMoves lib engine mvs = (whiteAcc, blackAcc, engine')"
    and r: "r = \<lparr>wa = meanAcc whiteAcc, ba = meanAcc blackAcc,
          moves = length whiteAcc + length blackAcc,
          white = (case White g of None \<Rightarrow> [] | Some p \<Rightarrow> ToLower (Username p)),
          black = (case Black g of None \<Rightarrow> [] | Some p \<Rightarrow> ToLower (Username p)), ok = True\<rparr>"
    by (rule analyzeGame_ok)
  have four: "length whiteAcc = 2 \<and> length blackAcc = 2 \<and> moves r = 4"
    if h: "Turn lib (NewGame lib) = WhiteToMove
        \<and> (\<forall>p m p'. Move lib p m = Some p' \<longrightarrow> Turn lib p' \<noteq> Turn lib p)
        \<and> allApply lib (NewGame lib) mvs \<and> length mvs = 4"
  proof -
    obtain prev e1 where an: "analyze engine (String lib (NewGame lib)) = (prev, e1)"
      by (cases "analyze engine (String lib (NewGame lib))") auto
    with sc have loop: "moveLoop lib mvs (NewGame lib) prev [] [] e1 = (whiteAcc, blackAcc, engine')"
      by (simp add: scoreMoves_def)
    from h have flips: "\<forall>p m p'. Move lib p m = Some p' \<longrightarrow> Turn lib p' \<noteq> Turn lib p"
      and app: "allApply lib (NewGame lib) mvs" and w: "Turn lib (NewGame lib) = WhiteToMove"
      and len: "length mvs = 4" by blast+
    from moveLoop_sides [OF flips app loop] w len r show ?thesis by simp
  qed
  from dec eng sc r four show ?thesis
    by (intro exI [of _ mvs] exI [of _ engine] exI [of _ whiteAcc] exI [of _ blackAcc]
        exI [of _ engine']) (simp add: meanAcc_mean)
qed

theorem analyzeGame_aggregate_witness:
  "ok (fst (analyzeGame toy
        (Some ''uciok\<newline>readyok\<newline>info wdl 500 0 500 n\<newline>bestmove a\<newline>info wdl 400 0 600 n\<newline>bestmove b\<newline>info wdl 400 0 600 n\<newline>bestmove c\<newline>info wdl 500 0 500 n\<newline>bestmove d\<newline>info wdl 500 0 500 n\<newline>bestmove e\<newline>'')
        \<lparr>PGN = ''abcd'', White = Some \<lparr>Username = ''Hikaru''\<rparr>, Black = None\<rparr>
        ''hikaru'' 1 4))
   \<and> moves (fst (analyzeGame toy
        (Some ''uciok\<newline>readyok\<newline>info wdl 500 0 500 n\<newline>bestmove a\<newline>info wdl 400 0 600 n\<newline>bestmove b\<newline>info wdl 400 0 600 n\<newline>bestmove c\<newline>info wdl 500 0 500 n\<newline>bestmove d\<newline>info wdl 500 0 500 n\<newline>bestmove e\<newline>'')
        \<lparr>PGN = ''abcd'', White = Some \<lparr>Username = ''Hikaru''\<rparr>, Black = None\<rparr>
        ''hikaru'' 1 4)) = 4
   \<and> wa (fst (analyzeGame toy
        (Some ''uciok\<newline>readyok\<newline>info wdl 500 0 500 n\<newline>bestmove a\<newline>info wdl 400 0 600 n\<newline>bestmove b\<newline>info wdl 400 0 600 n\<newline>bestmove c\<newline>info wdl 500 0 500 n\<newline>bestmove d\<newline>info wdl 500 0 500 n\<newline>bestmove e\<newline>'')
        \<lparr>PGN = ''abcd'', White = Some \<lparr>Username = ''Hikaru''\<rparr>, Black = None\<rparr>
        ''hikaru'' 1 4)) = 90"
proof -
  let ?out = "''uciok\<newline>readyok\<newline>info wdl 500 0 500 n\<newline>bestmove a\<newline>info wdl 400 0 600 n\<newline>bestmove b\<newline>info wdl 400 0 600 n\<newline>bestmove c\<newline>info wdl 500 0 500 n\<newline>bestmove d\<newline>info wdl 500 0 500 n\<newline>bestmove e\<newline>''"
  let ?g = "\<lparr>PGN = ''abcd'', White = Some \<lparr>Username = ''Hikaru''\<rparr>, Black = None\<rparr>"
  let ?run = "analyzeGame toy (Some ?out) ?g ''hikaru'' 1 4"
  have run: "?run = (fst ?run, snd ?run)" by simp
  have ok: "ok (fst ?run)" by code_simp
  have wa: "wa (fst ?run) = 90" by code_simp
  from analyzeGame_aggregate [OF run ok] obtain mvs and whiteAcc blackAcc :: "real list" where
    dec: "decode toy (PGN ?g) = Some mvs"
    and four: "Turn toy (NewGame toy) = WhiteToMove
        \<and> (\<forall>p m p'. Move toy p m = Some p' \<longrightarrow> Turn toy p' \<noteq> Turn toy p)
        \<and> allApply toy (NewGame toy) mvs \<and> length mvs = 4
        \<longrightarrow> length whiteAcc = 2 \<and> length blackAcc = 2 \<and> moves (fst ?run) = 4"
    by (elim exE conjE) (rule that, assumption+)
  from dec have mvs: "mvs = ''abcd''" by (simp add: toy_def)
  have "Turn toy (NewGame toy) = WhiteToMove" by (simp add: toy_def)
  moreover have "\<forall>p m p'. Move toy p m = Some p' \<longrightarrow> Turn toy p' \<noteq> Turn toy p"
    by (auto simp: toy_def split: if_splits)
  moreover have "allApply toy (NewGame toy) mvs" by (simp add: mvs toy_def)
  moreover have "length mvs = 4" by (simp add: mvs)
  ultimately have "moves (fst ?run) = 4" using four by blast
  with ok wa show ?thesis by blast
qed

section \<open>When the pipe closes\<close>

lemma Contains_append_left: "Contains r t \<Longrightarrow> Contains (p @ r) t"
  by (induction p) (simp_all add: Contains_def Let_def)

lemma Contains_append_right: "Contains l t \<Longrightarrow> Contains (l @ r) t"
proof (induction l)
  case Nil
  then have "t = []" by (simp add: Contains_def split: if_splits)
  then show ?case by (cases r) (simp_all add: Contains_def HasPrefix_def)
next
  case (Cons c l)
  show ?case
  proof (cases "HasPrefix (c # l) t")
    case True
    then have len: "length t \<le> length (c # l)" and tk: "take (length t) (c # l) = t"
      by (simp_all add: HasPrefix_def)
    from len have "take (length t) ((c # l) @ r) = take (length t) (c # l)"
      by (simp only: take_append) simp
    with len tk have "HasPrefix (c # l @ r) t" by (simp add: HasPrefix_def)
    then show ?thesis by (simp add: Contains_def)
  next
    case False
    with Cons.prems have "Contains l t"
      by (simp add: Contains_def Let_def split: if_splits)
    then have "Contains (l @ r) t" by (rule Cons.IH)
    then show ?thesis by (simp add: Contains_def Let_def)
  qed
qed

lemma ReadString_split: "ReadString d buf = (line, err, rest) \<Longrightarrow> buf = line @ rest"
  by (induction buf arbitrary: line) (auto split: if_splits prod.splits)

lemma ReadString_eof: "ReadString d buf = (line, True, rest) \<Longrightarrow> rest = []"
  by (induction buf arbitrary: line) (auto split: if_splits prod.splits)

lemma waitForReady_loop_closed:
  "\<not> Contains buf token \<Longrightarrow> waitForReady_loop token buf = []"
proof (induction token buf rule: waitForReady_loop.induct)
  case (1 token buf)
  obtain line err rest where rd: "ReadString nl buf = (line, err, rest)"
    by (cases "ReadString nl buf") auto
  show ?case
  proof (cases err)
    case True
    with rd have "rest = []" by (auto dest: ReadString_eof)
    with rd True show ?thesis by (subst waitForReady_loop.simps) simp
  next
    case False
    from rd have buf: "buf = line @ rest" by (rule ReadString_split)
    from "1.prems" buf have nl: "\<not> Contains line token" and nr: "\<not> Contains rest token"
      using Contains_append_right [of line token rest] Contains_append_left [of rest token line]
      by auto
    from rd have tup: "(line, (err, rest)) = ReadString nl buf" by simp
    from "1.IH" [OF tup refl] False nl nr
    have "waitForReady_loop token rest = []" by simp
    with rd False nl show ?thesis by (subst waitForReady_loop.simps) simp
  qed
qed

lemma waitForReady_loop_suffix: "\<exists>p. buf = p @ waitForReady_loop token buf"
proof (induction token buf rule: waitForReady_loop.induct)
  case (1 token buf)
  obtain line err rest where rd: "ReadString nl buf = (line, err, rest)"
    by (cases "ReadString nl buf") auto
  from rd have buf: "buf = line @ rest" by (rule ReadString_split)
  show ?case
  proof (cases "err \<or> Contains line token")
    case True
    with rd have "waitForReady_loop token buf = rest"
      by (subst waitForReady_loop.simps) simp
    with buf have "buf = line @ waitForReady_loop token buf" by simp
    then show ?thesis by (rule exI)
  next
    case False
    with rd have eq: "waitForReady_loop token buf = waitForReady_loop token rest"
      by (subst waitForReady_loop.simps) simp
    from rd have tup: "(line, (err, rest)) = ReadString nl buf" by simp
    from "1.IH" [OF tup refl False] obtain p
      where "rest = p @ waitForReady_loop token rest" by blast
    with buf eq have "buf = (line @ p) @ waitForReady_loop token buf" by simp
    then show ?thesis by (rule exI)
  qed
qed

lemma handshake_closed:
  assumes "\<not> Contains out ''uciok'' \<or> \<not> Contains out ''readyok''"
  shows "waitForReady_loop ''readyok'' (waitForReady_loop ''uciok'' out) = []"
proof -
  from assms show ?thesis
  proof
    assume "\<not> Contains out ''uciok''"
    then have "waitForReady_loop ''uciok'' out = []" by (rule waitForReady_loop_closed)
    moreover have "waitForReady_loop ''readyok'' [] = []"
      by (subst waitForReady_loop.simps) simp
    ultimately show ?thesis by simp
  next
    assume no: "\<not> Contains out ''readyok''"
    obtain p where "out = p @ waitForReady_loop ''uciok'' out"
      using waitForReady_loop_suffix by blast
    with no Contains_append_left [of "waitForReady_loop ''uciok'' out" "''readyok''" p]
    have "\<not> Contains (waitForReady_loop ''uciok'' out) ''readyok''" by auto
    then show ?thesis by (rule waitForReady_loop_closed)
  qed
qed

lemma analyze_closed:
  assumes "reader e = []"
  shows "fst (analyze e fen) = (333, 334, 333)" and "reader (snd (analyze e fen)) = []"
proof -
  have "analyze_loop (333, 334, 333) [] = ((333, 334, 333), [])"
    by (subst analyze_loop.simps) simp
  with assms show "fst (analyze e fen) = (333, 334, 333)" and "reader (snd (analyze e fen)) = []"
    by (simp_all add: analyze_def send_def Let_def)
qed

lemma moveLoop_closed:
  "reader e = [] \<Longrightarrow>
   moveLoop lib mvs pos (333, 334, 333) whiteAcc blackAcc e = (whiteAcc', blackAcc', e') \<Longrightarrow>
   set whiteAcc' \<subseteq> set whiteAcc \<union> {100} \<and> set blackAcc' \<subseteq> set blackAcc \<union> {100}"
proof (induction mvs arbitrary: pos whiteAcc blackAcc e)
  case Nil
  then show ?case by auto
next
  case (Cons mv mvs)
  let ?pos = "case Move lib pos mv of None \<Rightarrow> pos | Some p \<Rightarrow> p"
  from Cons.prems(1) obtain e1 where an: "analyze e (String lib ?pos) = ((333, 334, 333), e1)"
    and closed: "reader e1 = []"
    using analyze_closed [of e "String lib ?pos"]
    by (cases "analyze e (String lib ?pos)") auto
  have acc: "calcAccuracy (wdlToProb 333 334 333 s) (wdlToProb 333 334 333 s) = 100" for s
    by (simp add: calcAccuracy_def)
  show ?case
  proof (cases "Turn lib pos = WhiteToMove")
    case True
    with Cons.prems(2) an acc
    have "moveLoop lib mvs ?pos (333, 334, 333) (whiteAcc @ [100]) blackAcc e1
        = (whiteAcc', blackAcc', e')"
      by (simp add: Let_def)
    from Cons.IH [OF closed this] show ?thesis by auto
  next
    case False
    with Cons.prems(2) an acc
    have "moveLoop lib mvs ?pos (333, 334, 333) whiteAcc (blackAcc @ [100]) e1
        = (whiteAcc', blackAcc', e')"
      by (simp add: Let_def)
    from Cons.IH [OF closed this] show ?thesis by auto
  qed
qed

lemma scoreMoves_closed:
  assumes "reader e = []"
  shows "\<forall>a \<in> set (fst (scoreMoves lib e mvs)) \<union> set (fst (snd (scoreMoves lib e mvs))). a = 100"
proof -
  let ?fen = "String lib (NewGame lib)"
  from assms obtain e1 where an: "analyze e ?fen = ((333, 334, 333), e1)"
    and closed: "reader e1 = []"
    using analyze_closed [of e ?fen] by (cases "analyze e ?fen") auto
  obtain wA bA e' where loop: "moveLoop lib mvs (NewGame lib) (333, 334, 333) [] [] e1 = (wA, bA, e')"
    by (cases "moveLoop lib mvs (NewGame lib) (333, 334, 333) [] [] e1") auto
  from moveLoop_closed [OF closed loop] have "set wA \<subseteq> {100}" and "set bA \<subseteq> {100}" by auto
  moreover from an loop have "scoreMoves lib e mvs = (wA, bA, e')" by (simp add: scoreMoves_def)
  ultimately show ?thesis by auto
qed

section \<open>Engine start-up\<close>

text \<open>
  Claim C7, as the code has it. \<open>NewStockfishEngine\<close> returns an error, and no
  session, exactly when the process cannot be started; \<open>analyzeGame\<close> then returns
  the absent result. When the process starts and its output ends, whatever it has
  written, a session is returned without an error, the four commands written. When the
  output ends without \<open>uciok\<close> or without \<open>readyok\<close>, that session has nothing
  left to read; on a session with nothing left to read every evaluation returns
  (333, 334, 333) and leaves it so, and every move accuracy is 100. The game is not
  skipped: when the process starts, a game that passes the two filters and decodes to
  a non-empty list of moves gets a present result. (A process that neither writes nor
  closes the pipe blocks the call; nothing is stated about it.)
\<close>

theorem NewStockfishEngine_error:
  "(NewStockfishEngine proc threads depth' = Inl StartError \<longleftrightarrow> proc = None)
   \<and> (proc = None \<longrightarrow>
        fst (analyzeGame lib proc g username sfThreads depth') = absent \<and> \<not> ok absent
        \<and> (snd (analyzeGame lib proc g username sfThreads depth') = NoEngine
           \<or> snd (analyzeGame lib proc g username sfThreads depth') = StartFailed))
   \<and> NewStockfishEngine (Some out) threads depth' =
        Inr \<lparr>stdin = ''uci'' @ [nl] @ ''setoption name Threads value '' @ Itoa threads @ [nl]
                  @ ''setoption name UCI_ShowWDL value true'' @ [nl] @ ''isready'' @ [nl],
             reader = waitForReady_loop ''readyok'' (waitForReady_loop ''uciok'' out),
             depth = depth'\<rparr>
   \<and> (\<not> Contains out ''uciok'' \<or> \<not> Contains out ''readyok'' \<longrightarrow>
        waitForReady_loop ''readyok'' (waitForReady_loop ''uciok'' out) = [])
   \<and> (reader e = [] \<longrightarrow>
        fst (analyze e fen) = (333, 334, 333) \<and> reader (snd (analyze e fen)) = []
        \<and> (\<forall>a \<in> set (fst (scoreMoves lib e mvs)) \<union> set (fst (snd (scoreMoves lib e mvs))).
              a = 100))
   \<and> (PGN g \<noteq> []
        \<and> ((case White g of None \<Rightarrow> [] | Some p \<Rightarrow> ToLower (Username p)) = ToLower username
           \<or> (case Black g of None \<Rightarrow> [] | Some p \<Rightarrow> ToLower (Username p)) = ToLower username)
        \<and> decode lib (PGN g) = Some mvs \<and> mvs \<noteq> []
      \<longrightarrow> ok (fst (analyzeGame lib (Some out) g username sfThreads depth')))"
proof (intro conjI impI)
  show "NewStockfishEngine proc threads depth' = Inl StartError \<longleftrightarrow> proc = None"
    by (cases proc) (simp_all add: NewStockfishEngine_def Let_def)
  show "NewStockfishEngine (Some out) threads depth' =
        Inr \<lparr>stdin = ''uci'' @ [nl] @ ''setoption name Threads value '' @ Itoa threads @ [nl]
                  @ ''setoption name UCI_ShowWDL value true'' @ [nl] @ ''isready'' @ [nl],
             reader = waitForReady_loop ''readyok'' (waitForReady_loop ''uciok'' out),
             depth = depth'\<rparr>"
    by (simp add: NewStockfishEngine_def Let_def send_def waitForReady_def)
  show "waitForReady_loop ''readyok'' (waitForReady_loop ''uciok'' out) = []"
    if "\<not> Contains out ''uciok'' \<or> \<not> Contains out ''readyok''"
    using that by (rule handshake_closed)
  show "fst (analyze e fen) = (333, 334, 333)" if "reader e = []"
    using that by (rule analyze_closed)
  show "reader (snd (analyze e fen)) = []" if "reader e = []"
    using that by (rule analyze_closed)
  show "\<forall>a \<in> set (fst (scoreMoves lib e mvs)) \<union> set (fst (snd (scoreMoves lib e mvs))). a = 100"
    if "reader e = []"
    using that by (rule scoreMoves_closed)
  show "ok (fst (analyzeGame lib (Some out) g username sfThreads depth'))"
    if "PGN g \<noteq> []
        \<and> ((case White g of None \<Rightarrow> [] | Some p \<Rightarrow> ToLower (Username p)) = ToLower username
           \<or> (case Black g of None \<Rightarrow> [] | Some p \<Rightarrow> ToLower (Username p)) = ToLower username)
        \<and> decode lib (PGN g) = Some mvs \<and> mvs \<noteq> []"
    using that
    by (auto simp: analyzeGame_def Let_def NewStockfishEngine_def split: prod.splits)
next
  assume none: "proc = None"
  then have start: "NewStockfishEngine proc sfThreads depth' = Inl StartError"
    by (simp add: NewStockfishEngine_def)
  show "fst (analyzeGame lib proc g username sfThreads depth') = absent"
    by (simp add: analyzeGame_def Let_def start split: option.splits)
  show "\<not> ok absent" by (simp add: absent_def)
  show "snd (analyzeGame lib proc g username sfThreads depth') = NoEngine
      \<or> snd (analyzeGame lib proc g username sfThreads depth') = StartFailed"
    by (simp add: analyzeGame_def Let_def start split: option.splits)
qed

theorem NewStockfishEngine_error_witness:
  "NewStockfishEngine None 1 4 = Inl StartError
   \<and> analyzeGame toy None \<lparr>PGN = ''ab'', White = Some \<lparr>Username = ''hikaru''\<rparr>, Black = None\<rparr>
        ''hikaru'' 1 4 = (absent, StartFailed)
   \<and> \<not> Contains ''Stockfish 17\<newline>'' ''uciok''
   \<and> waitForReady_loop ''readyok'' (waitForReady_loop ''uciok'' ''Stockfish 17\<newline>'') = []
   \<and> fst (analyze \<lparr>stdin = [], reader = [], depth = 4\<rparr> ''m'') = (333, 334, 333)
   \<and> fst (scoreMoves toy \<lparr>stdin = [], reader = [], depth = 4\<rparr> ''ab'') = [100]
   \<and> fst (snd (scoreMoves toy \<lparr>stdin = [], reader = [], depth = 4\<rparr> ''ab'')) = [100]
   \<and> ok (fst (analyzeGame toy (Some ''Stockfish 17\<newline>'')
        \<lparr>PGN = ''ab'', White = Some \<lparr>Username = ''hikaru''\<rparr>, Black = None\<rparr> ''hikaru'' 1 4))"
proof -
  let ?g = "\<lparr>PGN = ''ab'', White = Some \<lparr>Username = ''hikaru''\<rparr>, Black = None\<rparr>"
  let ?e = "\<lparr>stdin = [], reader = [], depth = 4\<rparr>"
  note none = NewStockfishEngine_error [of None 1 4 toy ?g "''hikaru''" 1 "[]" ?e "[]" "[]"]
  from none have err: "NewStockfishEngine None 1 4 = Inl StartError" by blast
  from none have res: "fst (analyzeGame toy None ?g ''hikaru'' 1 4) = absent" by blast
  have "snd (analyzeGame toy None ?g ''hikaru'' 1 4) = StartFailed" by code_simp
  with res have skipped: "analyzeGame toy None ?g ''hikaru'' 1 4 = (absent, StartFailed)"
    by (metis prod.collapse)
  note some = NewStockfishEngine_error [of "Some ''Stockfish 17\<newline>''" 1 4 toy ?g "''hikaru''" 1
      "''Stockfish 17\<newline>''" ?e "''m''" "''ab''"]
  have silent: "\<not> Contains ''Stockfish 17\<newline>'' ''uciok''"
    by (simp add: Contains_def HasPrefix_def)
  with some have closed:
    "waitForReady_loop ''readyok'' (waitForReady_loop ''uciok'' ''Stockfish 17\<newline>'') = []"
    by blast
  have rd: "reader ?e = []" by simp
  with some have dflt: "fst (analyze ?e ''m'') = (333, 334, 333)"
    and hundred: "\<forall>a \<in> set (fst (scoreMoves toy ?e ''ab''))
         \<union> set (fst (snd (scoreMoves toy ?e ''ab''))). a = 100"
    by blast+
  have "PGN ?g \<noteq> []" and "(case White ?g of None \<Rightarrow> [] | Some p \<Rightarrow> ToLower (Username p))
      = ToLower ''hikaru''" and "decode toy (PGN ?g) = Some ''ab''" and "''ab'' \<noteq> []"
    by (simp_all add: toy_def)
  with some have present:
    "ok (fst (analyzeGame toy (Some ''Stockfish 17\<newline>'') ?g ''hikaru'' 1 4))"
    by blast
  have one: "length (fst (scoreMoves toy ?e ''ab'')) = 1"
    "length (fst (snd (scoreMoves toy ?e ''ab''))) = 1"
    by code_simp+
  from one(1) hundred have white: "fst (scoreMoves toy ?e ''ab'') = [100]"
    by (cases "fst (scoreMoves toy ?e ''ab'')") auto
  from one(2) hundred have black: "fst (snd (scoreMoves toy ?e ''ab'')) = [100]"
    by (cases "fst (snd (scoreMoves toy ?e ''ab''))") auto
  with err skipped silent closed dflt white present show ?thesis by blast
qed

text \<open>
  The claim as it is written fails when the pipe closes before \<open>uciok\<close>: the call
  returns a session and no error, and the game is analyzed, every evaluation giving
  the default triple.
\<close>

theorem NewStockfishEngine_error_counterexample:
  "NewStockfishEngine (Some ''Stockfish 17\<newline>'') 1 4 =
     Inr \<lparr>stdin = ''uci\<newline>setoption name Threads value 1\<newline>setoption name UCI_ShowWDL value true\<newline>isready\<newline>'',
          reader = [], depth = 4\<rparr>
   \<and> fst (analyzeGame toy (Some ''Stockfish 17\<newline>'')
        \<lparr>PGN = ''ab'', White = Some \<lparr>Username = ''hikaru''\<rparr>, Black = None\<rparr> ''hikaru'' 1 4)
     = \<lparr>wa = 100, ba = 100, moves = 2, white = ''hikaru'', black = [], ok = True\<rparr>"
  by code_simp

section \<open>A decoded move that does not apply\<close>

text \<open>
  Claim C8 says that the analyzer stops at a move of the decoded list that does not
  apply to the current position and keeps the accuracies gathered before it. The code
  does not: the error that \<open>pos.Move\<close> returns is discarded. The move is scored all
  the same, against the position as it was and for the side to move there, and the
  loop goes on with the remaining moves from that same position. Whatever \<open>Move\<close>
  returns, the loop ends with one accuracy for every move of the list.
\<close>

theorem moveLoop_discards_Move_error:
  "(Move lib pos mv = None \<and> analyze engine (String lib pos) = ((cw, cd, cl), engine') \<longrightarrow>
      moveLoop lib (mv # rest) pos (pw, pd, pl) whiteAcc blackAcc engine =
        (if Turn lib pos = WhiteToMove
         then moveLoop lib rest pos (cw, cd, cl)
                (whiteAcc @ [calcAccuracy (wdlToProb pw pd pl True) (wdlToProb cw cd cl True)])
                blackAcc engine'
         else moveLoop lib rest pos (cw, cd, cl) whiteAcc
                (blackAcc @ [calcAccuracy (wdlToProb pw pd pl False) (wdlToProb cw cd cl False)])
                engine'))
   \<and> (moveLoop lib mvs pos prev whiteAcc blackAcc engine = (whiteAcc', blackAcc', engine'') \<longrightarrow>
      length whiteAcc' + length blackAcc' = length whiteAcc + length blackAcc + length mvs)"
proof (intro conjI impI)
  assume "Move lib pos mv = None \<and> analyze engine (String lib pos) = ((cw, cd, cl), engine')"
  then show "moveLoop lib (mv # rest) pos (pw, pd, pl) whiteAcc blackAcc engine =
        (if Turn lib pos = WhiteToMove
         then moveLoop lib rest pos (cw, cd, cl)
                (whiteAcc @ [calcAccuracy (wdlToProb pw pd pl True) (wdlToProb cw cd cl True)])
                blackAcc engine'
         else moveLoop lib rest pos (cw, cd, cl) whiteAcc
                (blackAcc @ [calcAccuracy (wdlToProb pw pd pl False) (wdlToProb cw cd cl False)])
                engine')"
    by (simp add: Let_def)
next
  assume "moveLoop lib mvs pos prev whiteAcc blackAcc engine = (whiteAcc', blackAcc', engine'')"
  then show "length whiteAcc' + length blackAcc' = length whiteAcc + length blackAcc + length mvs"
    by (rule moveLoop_total)
qed

text \<open>
  With the stand-in library, on the moves \<open>a\<close>, \<open>x\<close>, \<open>b\<close>: the move \<open>x\<close> does not
  apply after \<open>a\<close>, Black is to move there, and the analyzer returns one accuracy for
  White and two for Black, three moves in all, where the claim has one.
\<close>

theorem moveLoop_discards_Move_error_witness:
  "Move toy (Suc 0) CHR ''x'' = None \<and> Turn toy (Suc 0) = BlackToMove
   \<and> moveLoop toy ''xb'' (Suc 0) (333, 334, 333) [100] [] \<lparr>stdin = [], reader = [], depth = 4\<rparr>
      = moveLoop toy ''b'' (Suc 0) (333, 334, 333) [100] [100]
          \<lparr>stdin = ''position fen m\<newline>go depth 4\<newline>'', reader = [], depth = 4\<rparr>
   \<and> fst (scoreMoves toy \<lparr>stdin = [], reader = [], depth = 4\<rparr> ''axb'') = [100]
   \<and> fst (snd (scoreMoves toy \<lparr>stdin = [], reader = [], depth = 4\<rparr> ''axb'')) = [100, 100]
   \<and> fst (analyzeGame toy (Some ''uciok\<newline>readyok\<newline>'')
        \<lparr>PGN = ''axb'', White = Some \<lparr>Username = ''hikaru''\<rparr>, Black = None\<rparr> ''hikaru'' 1 4)
      = \<lparr>wa = 100, ba = 100, moves = 3, white = ''hikaru'', black = [], ok = True\<rparr>"
proof -
  let ?e = "\<lparr>stdin = [], reader = [], depth = 4\<rparr>"
  let ?e' = "\<lparr>stdin = ''position fen m\<newline>go depth 4\<newline>'', reader = [], depth = 4\<rparr>"
  have fails: "Move toy (Suc 0) CHR ''x'' = None" and turn: "Turn toy (Suc 0) = BlackToMove"
    by (simp_all add: toy_def)
  have an: "analyze ?e (String toy (Suc 0)) = ((333, 334, 333), ?e')"
    by code_simp
  have acc: "calcAccuracy (wdlToProb 333 334 333 False) (wdlToProb 333 334 333 False) = 100"
    by (simp add: calcAccuracy_def)
  from moveLoop_discards_Move_error [of toy "Suc 0" "CHR ''x''" ?e 333 334 333 ?e' "''b''"
      333 334 333 "[100]" "[]"] fails an turn
  have "moveLoop toy ''xb'' (Suc 0) (333, 334, 333) [100] [] ?e
      = moveLoop toy ''b'' (Suc 0) (333, 334, 333) [100]
          ([] @ [calcAccuracy (wdlToProb 333 334 333 False) (wdlToProb 333 334 333 False)]) ?e'"
    by simp
  then have step: "moveLoop toy ''xb'' (Suc 0) (333, 334, 333) [100] [] ?e
      = moveLoop toy ''b'' (Suc 0) (333, 334, 333) [100] [100] ?e'"
    by (simp only: acc append_Nil)
  have lists: "fst (scoreMoves toy ?e ''axb'') = [100]"
    "fst (snd (scoreMoves toy ?e ''axb'')) = [100, 100]"
    by code_simp+
  have game: "fst (analyzeGame toy (Some ''uciok\<newline>readyok\<newline>'')
        \<lparr>PGN = ''axb'', White = Some \<lparr>Username = ''hikaru''\<rparr>, Black = None\<rparr> ''hikaru'' 1 4)
      = \<lparr>wa = 100, ba = 100, moves = 3, white = ''hikaru'', black = [], ok = True\<rparr>"
    by code_simp
  from fails turn step lists game show ?thesis by blast
qed

end
